theory Spec2Isabelle
  imports Main
begin

text \<open>
  The artist graph of \<^verbatim>\<open>app.py\<close>: \<^verbatim>\<open>build_graph\<close> builds an undirected networkx graph from
  two pandas tables, and \<^verbatim>\<open>calculate_dacus_number\<close> asks networkx for a shortest path from an
  artist to "Lucy Dacus".  The functions of the two libraries that the code calls are
  modelled next to the code itself.
\<close>

section \<open>Python strings\<close>

text \<open>
  Artist names are Python strings.  A string is a list of characters; the characters that
  \<^verbatim>\<open>str.strip()\<close> removes are the ones for which \<^verbatim>\<open>str.isspace()\<close> holds: in the range of
  \<^typ>\<open>char\<close> these are the code points 9 to 13, 28 to 32, 133 and 160.
\<close>

definition is_space :: "char \<Rightarrow> bool" where
  "is_space c = ((of_char c :: nat) \<in> {9, 10, 11, 12, 13, 28, 29, 30, 31, 32, 133, 160})"

definition strip :: "string \<Rightarrow> string" where
  "strip s = rev (dropWhile is_space (rev (dropWhile is_space s)))"

definition trimmed :: "string \<Rightarrow> bool" where
  \<comment> \<open>stripping the string changes nothing\<close>
  "trimmed s = (strip s = s)"

text \<open>
  \<^verbatim>\<open>s.split(sep)\<close> for a non-empty separator: the string is scanned from the left, every
  occurrence of \<open>sep\<close> closes the current piece, and the scan goes on after it.  The
  number of pieces is one more than the number of separators found, so the empty string
  gives one empty piece.
\<close>

function split_from :: "string \<Rightarrow> string \<Rightarrow> string \<Rightarrow> string list" where
  "split_from sep acc [] = [acc]"
| "split_from sep acc (c # cs) =
     (if sep \<noteq> [] \<and> take (length sep) (c # cs) = sep
      then acc # split_from sep [] (drop (length sep) (c # cs))
      else split_from sep (acc @ [c]) cs)"
  by pat_completeness auto
termination
  by (relation "measure (\<lambda>(sep, acc, s). length s)") auto

definition split :: "string \<Rightarrow> string \<Rightarrow> string list" where
  "split sep s = split_from sep [] s"

section \<open>Tables\<close>

text \<open>
  The two inputs of \<^verbatim>\<open>build_graph\<close> are pandas data frames read from CSV files.  A cell is a
  string or the missing value; a column (a \<^verbatim>\<open>Series\<close>) has a dtype and its values.  Reading a
  CSV gives dtype \<^verbatim>\<open>object\<close> to a column that holds text and \<^verbatim>\<open>float64\<close> to a column whose
  cells are all blank; a frame without rows has \<^verbatim>\<open>object\<close> columns.  A frame is the
  dictionary of its columns, all of the same length.  Every missing value is the one value
  \<open>NaN\<close> here.
\<close>

datatype cell = Str string | NaN

datatype dtype = Object | Float64

datatype series = Series (dtype_of: dtype) (values_of: "cell list")

type_synonym dataframe = "(string \<times> series) list"

datatype exn = AttributeError | KeyError | IndexError | NodeNotFound | NetworkXNoPath

definition has_column :: "dataframe \<Rightarrow> string \<Rightarrow> bool" where
  "has_column df c = (c \<in> set (map fst df))"

definition column :: "dataframe \<Rightarrow> string \<Rightarrow> series" where
  \<comment> \<open>\<^verbatim>\<open>df[c]\<close>, read only behind a test \<^verbatim>\<open>c in df.columns\<close>\<close>
  "column df c = (case map_of df c of Some s \<Rightarrow> s | None \<Rightarrow> Series Object [])"

definition isin :: "string list \<Rightarrow> cell \<Rightarrow> bool" where
  "isin names c = (case c of Str s \<Rightarrow> s \<in> set names | NaN \<Rightarrow> False)"

definition where_origin :: "(cell \<Rightarrow> bool) \<Rightarrow> dataframe \<Rightarrow> series" where
  \<comment> \<open>\<^verbatim>\<open>df[mask(df['playlist_origin'])]['Artist Name(s)']\<close>: the rows selected by the mask,
      the dtype of the column kept\<close>
  "where_origin p df =
     Series (dtype_of (column df ''Artist Name(s)''))
       (map snd (filter (\<lambda>(orig, a). p orig)
          (zip (values_of (column df ''playlist_origin''))
               (values_of (column df ''Artist Name(s)'')))))"

definition dropna :: "series \<Rightarrow> series" where
  "dropna s = Series (dtype_of s) (filter (\<lambda>c. c \<noteq> NaN) (values_of s))"

text \<open>
  \<^verbatim>\<open>s.str.split(',').explode().str.strip()\<close>.  The accessor \<^verbatim>\<open>.str\<close> refuses a series that
  is not of text dtype with an \<^verbatim>\<open>AttributeError\<close>, whatever its length.  On a text series a
  string is split at the commas, each piece becomes an entry of its own and is stripped;
  a missing value stays one missing entry.
\<close>

definition explode_cell :: "cell \<Rightarrow> cell list" where
  "explode_cell c = (case c of Str s \<Rightarrow> map (\<lambda>x. Str (strip x)) (split '','' s) | NaN \<Rightarrow> [NaN])"

definition split_explode_strip :: "series \<Rightarrow> exn + cell list" where
  "split_explode_strip s =
     (if dtype_of s = Float64 then Inl AttributeError
      else Inr (concat (map explode_cell (values_of s))))"

section \<open>The networkx graph\<close>

text \<open>
  An undirected \<^verbatim>\<open>nx.Graph\<close> keeps, for every node, a dictionary of attributes and a
  dictionary of neighbours; dictionaries keep the order of insertion.  The graph is the
  association list of its nodes with both.  The data of an edge (here always
  \<^verbatim>\<open>weight=1.0\<close>) is read by no function below and is left out.
\<close>

type_synonym attrs = "string \<rightharpoonup> string"

type_synonym 'a graph = "('a \<times> attrs \<times> 'a list) list"

definition has_node :: "'a graph \<Rightarrow> 'a \<Rightarrow> bool" where
  "has_node G n = (n \<in> set (map fst G))"

definition node_attrs :: "'a graph \<Rightarrow> 'a \<Rightarrow> attrs option" where
  "node_attrs G n = map_option fst (map_of G n)"

definition adj :: "'a graph \<Rightarrow> 'a \<Rightarrow> 'a list option" where
  \<comment> \<open>\<^verbatim>\<open>G.adj[n]\<close>; \<open>None\<close> is the \<^verbatim>\<open>KeyError\<close> of a name that is not a node\<close>
  "adj G n = map_option snd (map_of G n)"

definition neighbors :: "'a graph \<Rightarrow> 'a \<Rightarrow> 'a list" where
  "neighbors G n = (case adj G n of Some ns \<Rightarrow> ns | None \<Rightarrow> [])"

definition node_type :: "'a graph \<Rightarrow> 'a \<Rightarrow> string option" where
  \<comment> \<open>\<^verbatim>\<open>G.nodes[n].get('type')\<close>\<close>
  "node_type G n = (case node_attrs G n of None \<Rightarrow> None | Some a \<Rightarrow> a ''type'')"

definition has_edge :: "'a graph \<Rightarrow> 'a \<Rightarrow> 'a \<Rightarrow> bool" where
  "has_edge G u v = (v \<in> set (neighbors G u))"

definition node_set :: "'a graph \<Rightarrow> 'a set" where
  "node_set G = set (map fst G)"

definition edge_set :: "'a graph \<Rightarrow> ('a \<times> 'a) set" where
  "edge_set G = {(u, v). has_edge G u v}"

definition degree :: "'a graph \<Rightarrow> 'a \<Rightarrow> nat" where
  "degree G n = length (neighbors G n)"

definition undirected :: "'a graph \<Rightarrow> bool" where
  "undirected G = (\<forall>u \<in> set (map fst G). \<forall>v \<in> set (neighbors G u). u \<in> set (neighbors G v))"

definition add_node :: "'a \<Rightarrow> attrs \<Rightarrow> 'a graph \<Rightarrow> 'a graph" where
  \<comment> \<open>one round of \<^verbatim>\<open>add_nodes_from\<close>: a new node starts without neighbours, a known node
      only has its attributes updated\<close>
  "add_node n new G =
     (if has_node G n
      then map (\<lambda>(k, a, ns). if k = n then (k, a ++ new, ns) else (k, a, ns)) G
      else G @ [(n, new, [])])"

definition add_nodes_from :: "'a list \<Rightarrow> attrs \<Rightarrow> 'a graph \<Rightarrow> 'a graph" where
  "add_nodes_from xs new G = fold (\<lambda>n. add_node n new) xs G"

definition ensure_node :: "'a \<Rightarrow> 'a graph \<Rightarrow> 'a graph" where
  "ensure_node n G = (if has_node G n then G else G @ [(n, Map.empty, [])])"

definition add_nbr :: "'a \<Rightarrow> 'a \<Rightarrow> 'a graph \<Rightarrow> 'a graph" where
  \<comment> \<open>\<^verbatim>\<open>G._adj[u][v] = data\<close>: a new key goes to the end, a known key keeps its place\<close>
  "add_nbr u v G =
     map (\<lambda>(k, a, ns). if k = u then (k, a, if v \<in> set ns then ns else ns @ [v]) else (k, a, ns)) G"

definition add_edge :: "'a \<Rightarrow> 'a \<Rightarrow> 'a graph \<Rightarrow> 'a graph" where
  "add_edge u v G = add_nbr v u (add_nbr u v (ensure_node v (ensure_node u G)))"

section \<open>build_graph\<close>

text \<open>
  Python does not fix the order in which a \<^verbatim>\<open>set\<close> is iterated.  The function \<open>it\<close> stands
  for that order: it turns the values a set is built from into the sequence in which
  \<^verbatim>\<open>add_nodes_from\<close> meets its elements.  It \<open>enumerates\<close> when it yields exactly the
  elements of the set.
\<close>

definition enumerates :: "(cell list \<Rightarrow> cell list) \<Rightarrow> bool" where
  "enumerates it = (\<forall>xs. set (it xs) = set xs)"

definition origin_artists :: "(cell list \<Rightarrow> cell list) \<Rightarrow> string list \<Rightarrow> dataframe \<Rightarrow> exn + cell list" where
  \<comment> \<open>\<^verbatim>\<open>set(df[df['playlist_origin'] in names]['Artist Name(s)'].str.split(',').explode().str.strip())\<close>\<close>
  "origin_artists it names df =
     map_sum id it (split_explode_strip (where_origin (isin names) df))"

definition row_edges :: "cell \<times> cell \<Rightarrow> (cell \<times> cell) list" where
  \<comment> \<open>the edges of one row of the similarity table\<close>
  "row_edges r =
     (case snd r of Str s \<Rightarrow> map (\<lambda>x. (fst r, Str x)) (split '', '' s) | NaN \<Rightarrow> [])"

definition similarity_edges :: "dataframe \<Rightarrow> (cell \<times> cell) list" where
  "similarity_edges sim =
     (if has_column sim ''Artist'' \<and> has_column sim ''Similar Artists''
      then concat (map row_edges
             (zip (values_of (column sim ''Artist'')) (values_of (column sim ''Similar Artists''))))
      else [])"

definition tag :: "string \<Rightarrow> attrs" where
  \<comment> \<open>the keyword argument \<^verbatim>\<open>type=t\<close> of \<^verbatim>\<open>add_nodes_from\<close>\<close>
  "tag t = [''type'' \<mapsto> t]"

definition liked_artists :: "(cell list \<Rightarrow> cell list) \<Rightarrow> dataframe \<Rightarrow> exn + cell list" where
  "liked_artists it df =
     (if has_column df ''playlist_origin'' \<and> has_column df ''Artist Name(s)''
      then origin_artists it [''df_liked'', ''df_fav_albums''] df
      else Inr [])"

definition similar_artists_liked :: "(cell list \<Rightarrow> cell list) \<Rightarrow> dataframe \<Rightarrow> exn + cell list" where
  "similar_artists_liked it df_liked_similar =
     (if has_column df_liked_similar ''Similar Artists''
      then map_sum id it
             (split_explode_strip (dropna (column df_liked_similar ''Similar Artists'')))
      else Inr [])"

definition add_similarity_edges :: "dataframe \<Rightarrow> cell graph \<Rightarrow> cell graph" where
  "add_similarity_edges df_liked_similar G =
     fold (\<lambda>(artist, s). add_edge artist s) (similarity_edges df_liked_similar) G"

definition add_unconnected :: "(cell list \<Rightarrow> cell list) \<Rightarrow> dataframe \<Rightarrow> cell graph \<Rightarrow> exn + cell graph" where
  \<comment> \<open>the body of the last \<^verbatim>\<open>if\<close>: the NMF and the not-liked artists, as nodes only\<close>
  "add_unconnected it df G =
     (case origin_artists it [''df_nmf''] df of
        Inl e \<Rightarrow> Inl e
      | Inr nmf_artists \<Rightarrow>
          (case origin_artists it [''df_not_liked''] df of
             Inl e \<Rightarrow> Inl e
           | Inr not_liked_artists \<Rightarrow>
               Inr (add_nodes_from not_liked_artists (tag ''not_liked'')
                      (add_nodes_from nmf_artists (tag ''nmf'') G))))"

definition build_graph ::
  "(cell list \<Rightarrow> cell list) \<Rightarrow> dataframe \<Rightarrow> dataframe \<Rightarrow> bool \<Rightarrow> exn + cell graph" where
  "build_graph it df df_liked_similar include_nmf =
     (case liked_artists it df of
        Inl e \<Rightarrow> Inl e
      | Inr liked \<Rightarrow>
          (case similar_artists_liked it df_liked_similar of
             Inl e \<Rightarrow> Inl e
           | Inr similar \<Rightarrow>
               (let G1 = add_nodes_from liked (tag ''liked'') [];
                    G2 = add_nodes_from similar (tag ''similar_liked'') G1;
                    G3 = add_similarity_edges df_liked_similar G2
                in if include_nmf \<and> has_column df ''playlist_origin''
                      \<and> has_column df ''Artist Name(s)''
                   then add_unconnected it df G3
                   else Inr G3)))"

section \<open>Shortest paths\<close>

text \<open>
  \<^verbatim>\<open>nx.shortest_path(G, source, target)\<close> without a weight is networkx's
  \<^verbatim>\<open>bidirectional_shortest_path\<close>: a breadth-first search from both ends.  \<open>pred\<close> and
  \<open>succ\<close> are its two dictionaries; each maps a node that was reached to the node it was
  reached from, and the end the search started at to \<^verbatim>\<open>None\<close>.

  One level of the search visits the nodes \<open>v\<close> of a fringe and, for each, its neighbours
  \<open>w\<close>: a neighbour this side has not seen is recorded and put on the next fringe, and a
  neighbour the other side has seen ends the search.  Both sides run the same loop with
  the dictionaries exchanged.
\<close>

type_synonym 'a links = "'a \<rightharpoonup> 'a option"

datatype 'a scan = Hit "'a links" 'a | Next "'a links" "'a list"

fun scan_nbrs :: "'a \<Rightarrow> 'a list \<Rightarrow> 'a links \<Rightarrow> 'a links \<Rightarrow> 'a list \<Rightarrow> 'a scan" where
  "scan_nbrs v [] mine other fringe = Next mine fringe"
| "scan_nbrs v (w # ws) mine other fringe =
     (let mine' = (if mine w = None then mine(w \<mapsto> Some v) else mine);
          fringe' = (if mine w = None then fringe @ [w] else fringe)
      in if other w \<noteq> None then Hit mine' w
         else scan_nbrs v ws mine' other fringe')"

fun scan_level :: "'a graph \<Rightarrow> 'a list \<Rightarrow> 'a links \<Rightarrow> 'a links \<Rightarrow> 'a list \<Rightarrow> exn + 'a scan" where
  "scan_level G [] mine other fringe = Inr (Next mine fringe)"
| "scan_level G (v # vs) mine other fringe =
     (case adj G v of
        None \<Rightarrow> Inl KeyError
      | Some ws \<Rightarrow>
          (case scan_nbrs v ws mine other fringe of
             Hit m w \<Rightarrow> Inr (Hit m w)
           | Next m f \<Rightarrow> scan_level G vs m other f))"

definition universe :: "'a graph \<Rightarrow> 'a set" where
  "universe G = (\<Union>e \<in> set G. set (snd (snd e)))"

function bfs_loop ::
  "'a graph \<Rightarrow> 'a links \<Rightarrow> 'a links \<Rightarrow> 'a list \<Rightarrow> 'a list \<Rightarrow> exn + ('a links \<times> 'a links \<times> 'a)" where
  "bfs_loop G pred succ forward_fringe reverse_fringe =
     (if forward_fringe = [] \<or> reverse_fringe = [] then Inl NetworkXNoPath
      else if length forward_fringe \<le> length reverse_fringe then
        (case scan_level G forward_fringe pred succ [] of
           Inl e \<Rightarrow> Inl e
         | Inr (Hit pred' w) \<Rightarrow> Inr (pred', succ, w)
         | Inr (Next pred' fringe') \<Rightarrow> bfs_loop G pred' succ fringe' reverse_fringe)
      else
        (case scan_level G reverse_fringe succ pred [] of
           Inl e \<Rightarrow> Inl e
         | Inr (Hit succ' w) \<Rightarrow> Inr (pred, succ', w)
         | Inr (Next succ' fringe') \<Rightarrow> bfs_loop G pred succ' forward_fringe fringe'))"
  by pat_completeness auto

definition bidirectional_pred_succ :: "'a graph \<Rightarrow> 'a \<Rightarrow> 'a \<Rightarrow> exn + ('a links \<times> 'a links \<times> 'a)" where
  "bidirectional_pred_succ G source target =
     (if target = source then Inr ([target \<mapsto> None], [source \<mapsto> None], source)
      else bfs_loop G [source \<mapsto> None] [target \<mapsto> None] [source] [target])"

text \<open>
  The path is read off the two dictionaries:
  \<^verbatim>\<open>while w is not None: path.append(w); w = links[w]\<close>.  The loop ends only when the
  links lead to \<^verbatim>\<open>None\<close>, so the model is a partial function: \<open>None\<close> stands for a loop
  that never ends, \<open>Some (Inl KeyError)\<close> for a link to a node the dictionary lacks.
\<close>

partial_function (option) follow :: "'a links \<Rightarrow> 'a option \<Rightarrow> 'a list \<Rightarrow> (exn + 'a list) option" where
  "follow links w path =
     (case w of
        None \<Rightarrow> Some (Inr path)
      | Some x \<Rightarrow>
          (case links x of
             None \<Rightarrow> Some (Inl KeyError)
           | Some nxt \<Rightarrow> follow links nxt (path @ [x])))"

declare follow.simps [code]

definition read_path :: "'a links \<Rightarrow> 'a links \<Rightarrow> 'a \<Rightarrow> (exn + 'a list) option" where
  \<comment> \<open>from the meeting node \<open>w\<close> back to the source, reversed, then on to the target\<close>
  "read_path pred succ w =
     (case follow pred (Some w) [] of
        None \<Rightarrow> None
      | Some (Inl e) \<Rightarrow> Some (Inl e)
      | Some (Inr p) \<Rightarrow>
          (let path = rev p in
           if path = [] then Some (Inl IndexError)
           else (case succ (last path) of
                   None \<Rightarrow> Some (Inl KeyError)
                 | Some w' \<Rightarrow> follow succ w' path)))"

definition bidirectional_shortest_path :: "'a graph \<Rightarrow> 'a \<Rightarrow> 'a \<Rightarrow> (exn + 'a list) option" where
  "bidirectional_shortest_path G source target =
     (if \<not> has_node G source then Some (Inl NodeNotFound)
      else if \<not> has_node G target then Some (Inl NodeNotFound)
      else (case bidirectional_pred_succ G source target of
              Inl e \<Rightarrow> Some (Inl e)
            | Inr (pred, succ, w) \<Rightarrow> read_path pred succ w))"

section \<open>calculate_dacus_number\<close>

text \<open>
  The result is the pair the function returns, \<open>Inl\<close> of the exception that leaves it, or
  \<open>None\<close> if it does not return.  Only \<^verbatim>\<open>NetworkXNoPath\<close> is caught.
\<close>

definition Lucy_Dacus :: cell where
  "Lucy_Dacus = Str ''Lucy Dacus''"

definition calculate_dacus_number ::
  "cell \<Rightarrow> cell graph \<Rightarrow> (exn + (int option \<times> cell list option)) option" where
  "calculate_dacus_number artist_name G =
     (if \<not> has_node G artist_name then Some (Inr (None, None))
      else if artist_name = Lucy_Dacus then Some (Inr (Some 0, Some [Lucy_Dacus]))
      else (case bidirectional_shortest_path G artist_name Lucy_Dacus of
              None \<Rightarrow> None
            | Some (Inl e) \<Rightarrow> if e = NetworkXNoPath then Some (Inr (None, None)) else Some (Inl e)
            | Some (Inr path) \<Rightarrow> Some (Inr (Some (int (length path) - 1), Some path))))"

section \<open>Notions the properties are stated with\<close>

text \<open>
  A path of \<open>G\<close> from \<open>a\<close> to \<open>b\<close> is a non-empty sequence of names that starts at \<open>a\<close>, ends
  at \<open>b\<close> and in which each name has the next one among its neighbours.
\<close>

definition is_path :: "'a graph \<Rightarrow> 'a \<Rightarrow> 'a \<Rightarrow> 'a list \<Rightarrow> bool" where
  "is_path G a b p = (p \<noteq> [] \<and> hd p = a \<and> last p = b \<and> successively (has_edge G) p)"

definition has_path :: "'a graph \<Rightarrow> 'a \<Rightarrow> 'a \<Rightarrow> bool" where
  "has_path G a b = (\<exists>p. is_path G a b p)"

text \<open>
  The links of a search dictionary lead from a node back to the end the search started at;
  \<open>trail m w p\<close> says that \<open>p\<close> is the sequence of nodes met on the way from \<open>w\<close>.
\<close>

inductive trail :: "'a links \<Rightarrow> 'a \<Rightarrow> 'a list \<Rightarrow> bool" for m :: "'a links" where
  trail_end: "m w = Some None \<Longrightarrow> trail m w [w]"
| trail_step: "m w = Some (Some v) \<Longrightarrow> trail m v p \<Longrightarrow> trail m w (w # p)"

definition search_tree :: "'a graph \<Rightarrow> 'a \<Rightarrow> 'a links \<Rightarrow> bool" where
  "search_tree G r m =
     ((\<forall>w. m w = Some None \<longrightarrow> w = r) \<and>
      (\<forall>w v. m w = Some (Some v) \<longrightarrow> has_edge G v w) \<and>
      (\<forall>w \<in> dom m. has_node G w \<and> (\<exists>p. trail m w p \<and> distinct p \<and> set p \<subseteq> dom m)))"

text \<open>
  What \<^verbatim>\<open>add_edge\<close> does to the neighbour lists, seen as a function of the node.
\<close>

definition link :: "'a \<Rightarrow> 'a \<Rightarrow> ('a \<Rightarrow> 'a list) \<Rightarrow> ('a \<Rightarrow> 'a list)" where
  "link u v N = N(u := if v \<in> set (N u) then N u else N u @ [v])"

definition join :: "'a \<Rightarrow> 'a \<Rightarrow> ('a \<Rightarrow> 'a list) \<Rightarrow> ('a \<Rightarrow> 'a list)" where
  "join u v N = link v u (link u v N)"

definition symmetric :: "('a \<Rightarrow> 'a list) \<Rightarrow> bool" where
  "symmetric N = (\<forall>u v. v \<in> set (N u) \<longrightarrow> u \<in> set (N v))"

text \<open>
  Two graphs are alike when they have the same nodes and every node has the same list of
  neighbours in both; two results of \<^verbatim>\<open>build_graph\<close> are alike when both are the same
  exception or both are graphs that are alike.
\<close>

definition alike :: "'a graph \<Rightarrow> 'a graph \<Rightarrow> bool" where
  "alike G H = ((\<forall>x. has_node G x = has_node H x) \<and> neighbors G = neighbors H)"

definition alike_results :: "exn + 'a graph \<Rightarrow> exn + 'a graph \<Rightarrow> bool" where
  "alike_results r1 r2 =
     (case r1 of
        Inl e1 \<Rightarrow> r2 = Inl e1
      | Inr G1 \<Rightarrow> (case r2 of Inl e2 \<Rightarrow> False | Inr G2 \<Rightarrow> alike G1 G2))"

section \<open>Example graphs and tables\<close>

definition small_graph :: "cell graph" where
  "small_graph =
     [(Str ''Julien Baker'', Map.empty, [Lucy_Dacus]),
      (Lucy_Dacus, Map.empty, [Str ''Julien Baker'']),
      (Str ''Mitski'', Map.empty, [])]"

definition lone_graph :: "cell graph" where
  "lone_graph = [(Str ''Mitski'', Map.empty, [])]"

definition liked_table :: dataframe where
  "liked_table =
     [(''playlist_origin'', Series Object [Str ''df_liked'']),
      (''Artist Name(s)'', Series Object [Str ''Lucy Dacus''])]"

definition similar_table :: dataframe where
  "similar_table =
     [(''Artist'', Series Object [Str ''Lucy Dacus'', Str ''Julien Baker'']),
      (''Similar Artists'',
         Series Object [Str ''Julien Baker, Phoebe Bridgers'', Str ''boygenius''])]"

definition nmf_table :: dataframe where
  "nmf_table =
     [(''playlist_origin'', Series Object [Str ''df_nmf'']),
      (''Artist Name(s)'', Series Object [Str ''Mitski''])]"

definition nmf_similar :: dataframe where
  "nmf_similar =
     [(''Artist'', Series Object [Str ''Lucy Dacus'']),
      (''Similar Artists'', Series Object [Str ''Mitski''])]"

definition blank_similar :: dataframe where
  \<comment> \<open>one row whose similar-artists field is blank: read from CSV, the column is \<^verbatim>\<open>float64\<close>\<close>
  "blank_similar =
     [(''Artist'', Series Object [Str ''Lucy Dacus'']),
      (''Similar Artists'', Series Float64 [NaN])]"

definition spaced_similar :: dataframe where
  \<comment> \<open>a list of similar artists that ends in a space\<close>
  "spaced_similar =
     [(''Artist'', Series Object [Str ''Lucy Dacus'']),
      (''Similar Artists'', Series Object [Str ''Julien Baker, Phoebe Bridgers ''])]"

section \<open>Termination of the search\<close>

lemma scan_nbrs_Next:
  "scan_nbrs v ws mine other fr = Next m' fr' \<Longrightarrow>
   \<exists>new. fr' = fr @ new \<and> dom m' = dom mine \<union> set new \<and> set new \<inter> dom mine = {} \<and> set new \<subseteq> set ws"
proof (induction ws arbitrary: mine fr)
  case Nil
  then show ?case by simp
next
  case (Cons w ws)
  show ?case
  proof (cases "mine w = None")
    case True
    with Cons.prems have "scan_nbrs v ws (mine(w \<mapsto> Some v)) other (fr @ [w]) = Next m' fr'"
      by (simp add: Let_def split: if_splits)
    from Cons.IH[OF this] obtain new where
      n: "fr' = (fr @ [w]) @ new" "dom m' = dom (mine(w \<mapsto> Some v)) \<union> set new"
         "set new \<inter> dom (mine(w \<mapsto> Some v)) = {}" "set new \<subseteq> set ws"
      by blast
    have "fr' = fr @ (w # new)" using n(1) by simp
    moreover have "dom m' = dom mine \<union> set (w # new)" using n(2) by auto
    moreover have "set (w # new) \<inter> dom mine = {}" using n(3) True by auto
    moreover have "set (w # new) \<subseteq> set (w # ws)" using n(4) by auto
    ultimately show ?thesis by blast
  next
    case False
    with Cons.prems have "scan_nbrs v ws mine other fr = Next m' fr'"
      by (simp add: Let_def split: if_splits)
    from Cons.IH[OF this] show ?thesis by auto
  qed
qed

lemma adj_universe: "adj G v = Some ws \<Longrightarrow> set ws \<subseteq> universe G"
proof -
  assume "adj G v = Some ws"
  then obtain a where "map_of G v = Some (a, ws)"
    by (auto simp: adj_def)
  then have "(v, a, ws) \<in> set G" by (rule map_of_SomeD)
  then show ?thesis by (force simp: universe_def)
qed

lemma scan_level_Next:
  "scan_level G vs mine other fr = Inr (Next m' fr') \<Longrightarrow>
   \<exists>new. fr' = fr @ new \<and> dom m' = dom mine \<union> set new \<and> set new \<inter> dom mine = {}
       \<and> set new \<subseteq> universe G"
proof (induction vs arbitrary: mine fr)
  case Nil
  then show ?case by simp
next
  case (Cons v vs)
  from Cons.prems obtain ws where ws: "adj G v = Some ws"
    by (auto split: option.splits)
  from Cons.prems ws obtain m1 f1 where
    s1: "scan_nbrs v ws mine other fr = Next m1 f1" and
    s2: "scan_level G vs m1 other f1 = Inr (Next m' fr')"
    by (auto split: scan.splits)
  from scan_nbrs_Next[OF s1] obtain n1 where
    n1: "f1 = fr @ n1" "dom m1 = dom mine \<union> set n1" "set n1 \<inter> dom mine = {}" "set n1 \<subseteq> set ws"
    by blast
  from Cons.IH[OF s2] obtain n2 where
    n2: "fr' = f1 @ n2" "dom m' = dom m1 \<union> set n2" "set n2 \<inter> dom m1 = {}" "set n2 \<subseteq> universe G"
    by blast
  have "fr' = fr @ (n1 @ n2)" using n1(1) n2(1) by simp
  moreover have "dom m' = dom mine \<union> set (n1 @ n2)" using n1(2) n2(2) by auto
  moreover have "set (n1 @ n2) \<inter> dom mine = {}" using n1(2,3) n2(3) by auto
  moreover have "set (n1 @ n2) \<subseteq> universe G" using n1(4) n2(4) adj_universe[OF ws] by auto
  ultimately show ?case by blast
qed

lemma finite_universe: "finite (universe G)"
  by (simp add: universe_def)

lemma level_measure:
  assumes "scan_level G vs mine other [] = Inr (Next m' fr')"
  shows "card (universe G - dom m') \<le> card (universe G - dom mine)"
    and "fr' \<noteq> [] \<Longrightarrow> card (universe G - dom m') < card (universe G - dom mine)"
proof -
  from scan_level_Next[OF assms] have
    d: "dom m' = dom mine \<union> set fr'" and i: "set fr' \<inter> dom mine = {}" and u: "set fr' \<subseteq> universe G"
    by auto
  have sub: "universe G - dom m' \<subseteq> universe G - dom mine" using d by auto
  show "card (universe G - dom m') \<le> card (universe G - dom mine)"
    by (rule card_mono) (use sub finite_universe in auto)
  assume "fr' \<noteq> []"
  then obtain x where x: "x \<in> set fr'" by (cases fr') auto
  then have "x \<in> universe G - dom mine" "x \<notin> universe G - dom m'" using d i u by auto
  with sub have "universe G - dom m' \<subset> universe G - dom mine" by auto
  then show "card (universe G - dom m') < card (universe G - dom mine)"
    by (rule psubset_card_mono[rotated]) (simp add: finite_universe)
qed

termination bfs_loop
proof (relation "measure (\<lambda>(G, pred, succ, ff, rf).
          2 * (card (universe G - dom pred) + card (universe G - dom succ))
          + (if ff = [] \<or> rf = [] then 0 else 1))", goal_cases)
  case 1
  show ?case by simp
next
  case (2 G pred succ ff rf x2 x1 fr')
  then have s: "scan_level G ff pred succ [] = Inr (Next x1 fr')" by simp
  from level_measure[OF s] 2(1) show ?case
    by (cases "fr' = []") auto
next
  case (3 G pred succ ff rf x2 x1 fr')
  then have s: "scan_level G rf succ pred [] = Inr (Next x1 fr')" by simp
  from level_measure[OF s] 3(1) show ?case
    by (cases "fr' = []") auto
qed

declare bfs_loop.simps [simp del]

section \<open>What the search keeps true\<close>

lemma adj_has_node: "adj G v \<noteq> None \<longleftrightarrow> has_node G v"
  by (simp add: adj_def has_node_def map_of_eq_None_iff)

lemma has_edge_left: "has_edge G u v \<Longrightarrow> has_node G u"
proof -
  assume "has_edge G u v"
  then have "adj G u \<noteq> None"
    by (cases "adj G u") (auto simp: has_edge_def neighbors_def)
  then show ?thesis using adj_has_node[of G u] by blast
qed

lemma undirected_sym: "undirected G \<Longrightarrow> has_edge G u v \<Longrightarrow> has_edge G v u"
proof -
  assume u: "undirected G" and e: "has_edge G u v"
  from e have "u \<in> set (map fst G)" using has_edge_left[OF e] by (simp add: has_node_def)
  with u e show ?thesis unfolding undirected_def has_edge_def by blast
qed

lemma has_edge_right: "undirected G \<Longrightarrow> has_edge G u v \<Longrightarrow> has_node G v"
  by (blast intro: has_edge_left undirected_sym)

lemma trail_hd: "trail m w p \<Longrightarrow> p \<noteq> [] \<and> hd p = w"
  by (induction rule: trail.induct) auto

lemma trail_last: "trail m w p \<Longrightarrow> \<forall>x. m x = Some None \<longrightarrow> x = r \<Longrightarrow> last p = r"
  by (induction rule: trail.induct) (auto dest: trail_hd)

lemma trail_edges:
  "trail m w p \<Longrightarrow> \<forall>x y. m x = Some (Some y) \<longrightarrow> has_edge G y x \<Longrightarrow>
   successively (\<lambda>x y. has_edge G y x) p"
proof (induction rule: trail.induct)
  case (trail_end w)
  then show ?case by simp
next
  case (trail_step w v p)
  from trail_hd[OF trail_step.hyps(2)] obtain q where "p = v # q" by (cases p) auto
  with trail_step show ?case by auto
qed

lemma trail_upd: "trail m x p \<Longrightarrow> w \<notin> set p \<Longrightarrow> trail (m(w \<mapsto> y)) x p"
  by (induction rule: trail.induct) (auto intro: trail.intros)

lemma follow_trail: "trail m w p \<Longrightarrow> follow m (Some w) acc = Some (Inr (acc @ p))"
proof (induction arbitrary: acc rule: trail.induct)
  case (trail_end w)
  then show ?case by (simp add: follow.simps)
next
  case (trail_step w v p)
  have "follow m (Some w) acc = follow m (Some v) (acc @ [w])"
    using trail_step.hyps(1) by (subst follow.simps) simp
  then show ?case using trail_step.IH[of "acc @ [w]"] by simp
qed

lemma search_tree_start: "has_node G r \<Longrightarrow> search_tree G r [r \<mapsto> None]"
  unfolding search_tree_def
  by (auto intro!: exI[of _ "[r]"] trail.intros split: if_splits)

lemma search_tree_extend:
  assumes t: "search_tree G r m" and v: "m v \<noteq> None" and w: "m w = None"
    and e: "has_edge G v w" and n: "has_node G w"
  shows "search_tree G r (m(w \<mapsto> Some v))"
  unfolding search_tree_def
proof (intro conjI allI impI ballI)
  fix x assume "(m(w \<mapsto> Some v)) x = Some None"
  then show "x = r" using t by (auto simp: search_tree_def split: if_splits)
next
  fix x y assume "(m(w \<mapsto> Some v)) x = Some (Some y)"
  then show "has_edge G y x" using t e by (auto simp: search_tree_def split: if_splits)
next
  fix x assume "x \<in> dom (m(w \<mapsto> Some v))"
  then show "has_node G x" using t n by (auto simp: search_tree_def split: if_splits)
next
  fix x assume x: "x \<in> dom (m(w \<mapsto> Some v))"
  have old: "\<exists>p. trail (m(w \<mapsto> Some v)) y p \<and> distinct p \<and> set p \<subseteq> dom m \<and> w \<notin> set p"
    if "y \<in> dom m" for y
  proof -
    from t that obtain p where p: "trail m y p" "distinct p" "set p \<subseteq> dom m"
      unfolding search_tree_def by blast
    with w have "w \<notin> set p" by auto
    with p trail_upd[OF p(1) this] show ?thesis by blast
  qed
  show "\<exists>p. trail (m(w \<mapsto> Some v)) x p \<and> distinct p \<and> set p \<subseteq> dom (m(w \<mapsto> Some v))"
  proof (cases "x = w")
    case False
    with x have "x \<in> dom m" by auto
    from old[OF this] show ?thesis by auto
  next
    case True
    from v have "v \<in> dom m" by auto
    from old[OF this] obtain p where
      p: "trail (m(w \<mapsto> Some v)) v p" "distinct p" "set p \<subseteq> dom m" "w \<notin> set p" by blast
    have "trail (m(w \<mapsto> Some v)) w (w # p)"
      by (rule trail_step[OF _ p(1)]) simp
    with p True show ?thesis by (intro exI[of _ "w # p"]) auto
  qed
qed

lemma scan_nbrs_inv:
  assumes "search_tree G r mine" "mine v \<noteq> None" "\<forall>w \<in> set ws. has_edge G v w \<and> has_node G w"
    "dom mine \<inter> dom other = {}" "set fr \<subseteq> dom mine"
  shows "case scan_nbrs v ws mine other fr of
           Next m' fr' \<Rightarrow> search_tree G r m' \<and> dom m' \<inter> dom other = {} \<and> set fr' \<subseteq> dom m'
                          \<and> dom mine \<subseteq> dom m'
         | Hit m' w \<Rightarrow> search_tree G r m' \<and> w \<in> dom m' \<and> w \<in> dom other
                          \<and> dom m' \<inter> dom other \<subseteq> {w}"
  using assms
proof (induction ws arbitrary: mine fr)
  case Nil
  then show ?case by simp
next
  case (Cons w ws)
  define m1 where "m1 = (if mine w = None then mine(w \<mapsto> Some v) else mine)"
  define f1 where "f1 = (if mine w = None then fr @ [w] else fr)"
  have ew: "has_edge G v w" "has_node G w" using Cons.prems(3) by auto
  have tm: "search_tree G r m1"
    using search_tree_extend[OF Cons.prems(1,2) _ ew] Cons.prems(1) by (auto simp: m1_def)
  have wm: "w \<in> dom m1" by (auto simp: m1_def)
  have sub: "dom mine \<subseteq> dom m1" by (auto simp: m1_def)
  have dm: "dom m1 \<subseteq> insert w (dom mine)" by (auto simp: m1_def)
  show ?case
  proof (cases "other w \<noteq> None")
    case True
    then have "scan_nbrs v (w # ws) mine other fr = Hit m1 w"
      by (simp add: Let_def m1_def)
    moreover have "dom m1 \<inter> dom other \<subseteq> {w}" using dm Cons.prems(4) by blast
    moreover have "w \<in> dom other" using True by blast
    ultimately show ?thesis using tm wm by simp
  next
    case False
    then have eq: "scan_nbrs v (w # ws) mine other fr = scan_nbrs v ws m1 other f1"
      by (simp add: Let_def m1_def f1_def)
    have 1: "m1 v \<noteq> None" using Cons.prems(2) sub by blast
    have 2: "\<forall>w \<in> set ws. has_edge G v w \<and> has_node G w" using Cons.prems(3) by auto
    have "w \<notin> dom other" using False by blast
    then have 3: "dom m1 \<inter> dom other = {}" using dm Cons.prems(4) by blast
    have 4: "set f1 \<subseteq> dom m1" using Cons.prems(5) sub wm by (auto simp: f1_def)
    note ih = Cons.IH[OF tm 1 2 3 4]
    show ?thesis
    proof (cases "scan_nbrs v ws m1 other f1")
      case (Hit m' x)
      with ih show ?thesis unfolding eq by simp
    next
      case (Next m' f')
      with ih have "dom m1 \<subseteq> dom m'" by simp
      with sub have "dom mine \<subseteq> dom m'" by (rule subset_trans)
      with ih Next show ?thesis unfolding eq by simp
    qed
  qed
qed

lemma scan_level_inv:
  assumes "undirected G" "search_tree G r mine" "set vs \<subseteq> dom mine"
    "dom mine \<inter> dom other = {}" "set fr \<subseteq> dom mine"
  shows "case scan_level G vs mine other fr of
           Inl e \<Rightarrow> False
         | Inr (Next m' fr') \<Rightarrow> search_tree G r m' \<and> dom m' \<inter> dom other = {} \<and> set fr' \<subseteq> dom m'
         | Inr (Hit m' w) \<Rightarrow> search_tree G r m' \<and> w \<in> dom m' \<and> w \<in> dom other
                          \<and> dom m' \<inter> dom other \<subseteq> {w}"
  using assms(2-)
proof (induction vs arbitrary: mine fr)
  case Nil
  then show ?case by simp
next
  case (Cons v vs)
  have v: "mine v \<noteq> None" using Cons.prems(2) by auto
  then have "has_node G v" using Cons.prems(1) by (auto simp: search_tree_def)
  then obtain ws where ws: "adj G v = Some ws" using adj_has_node[of G v] by auto
  then have nb: "neighbors G v = ws" by (simp add: neighbors_def)
  have 3: "\<forall>w \<in> set ws. has_edge G v w \<and> has_node G w"
    using nb has_edge_right[OF assms(1)] by (auto simp: has_edge_def)
  note s = scan_nbrs_inv[OF Cons.prems(1) v 3 Cons.prems(3,4)]
  show ?case
  proof (cases "scan_nbrs v ws mine other fr")
    case (Hit m w)
    with s ws show ?thesis by simp
  next
    case (Next m f)
    with s have a: "search_tree G r m" "dom m \<inter> dom other = {}" "set f \<subseteq> dom m" "dom mine \<subseteq> dom m"
      by auto
    have "set vs \<subseteq> dom mine" using Cons.prems(2) by simp
    then have "set vs \<subseteq> dom m" using a(4) by (rule subset_trans)
    from Cons.IH[OF a(1) this a(2,3)] have
      "case scan_level G vs m other f of
           Inl e \<Rightarrow> False
         | Inr (Next m' fr') \<Rightarrow> search_tree G r m' \<and> dom m' \<inter> dom other = {} \<and> set fr' \<subseteq> dom m'
         | Inr (Hit m' w) \<Rightarrow> search_tree G r m' \<and> w \<in> dom m' \<and> w \<in> dom other
                          \<and> dom m' \<inter> dom other \<subseteq> {w}" .
    moreover have "scan_level G (v # vs) mine other fr = scan_level G vs m other f"
      using Next ws by simp
    ultimately show ?thesis by simp
  qed
qed

lemma bfs_loop_inv:
  "undirected G \<Longrightarrow> search_tree G s pred \<Longrightarrow> search_tree G t succ \<Longrightarrow> dom pred \<inter> dom succ = {} \<Longrightarrow>
         set ff \<subseteq> dom pred \<Longrightarrow> set rf \<subseteq> dom succ \<Longrightarrow>
         (case bfs_loop G pred succ ff rf of
            Inl e \<Rightarrow> e = NetworkXNoPath
          | Inr (pred', succ', w) \<Rightarrow> search_tree G s pred' \<and> search_tree G t succ'
                \<and> w \<in> dom pred' \<and> w \<in> dom succ' \<and> dom pred' \<inter> dom succ' \<subseteq> {w})"
proof (induction G pred succ ff rf rule: bfs_loop.induct)
  case (1 G pred succ ff rf)
  show ?case
  proof (cases "ff = [] \<or> rf = []")
    case True
    then show ?thesis by (subst bfs_loop.simps) simp
  next
    case ne: False
    show ?thesis
    proof (cases "length ff \<le> length rf")
      case True
      have e: "set ([]::'a list) \<subseteq> dom pred" by simp
      note s = scan_level_inv[OF "1.prems"(1,2,5,4) e]
      show ?thesis
      proof (cases "scan_level G ff pred succ []")
        case (Inl e)
        with s show ?thesis by simp
      next
        case (Inr sc)
        show ?thesis
        proof (cases sc)
          case (Hit p' w)
          with Inr s ne True "1.prems"(3) show ?thesis
            by (subst bfs_loop.simps) auto
        next
          case (Next p' f')
          with Inr s have a: "search_tree G s p'" "dom p' \<inter> dom succ = {}" "set f' \<subseteq> dom p'"
            by auto
          from "1.IH"(1)[OF ne True Inr Next "1.prems"(1) a(1) "1.prems"(3) a(2,3) "1.prems"(6)]
          show ?thesis using Inr Next ne True by (subst bfs_loop.simps) simp
        qed
      qed
    next
      case False
      have e: "set ([]::'a list) \<subseteq> dom succ" by simp
      have d: "dom succ \<inter> dom pred = {}" using "1.prems"(4) by auto
      note s = scan_level_inv[OF "1.prems"(1,3,6) d e]
      show ?thesis
      proof (cases "scan_level G rf succ pred []")
        case (Inl e)
        with s show ?thesis by simp
      next
        case (Inr sc)
        show ?thesis
        proof (cases sc)
          case (Hit p' w)
          with Inr s ne False "1.prems"(2) show ?thesis
            by (subst bfs_loop.simps) auto
        next
          case (Next p' f')
          with Inr s have a: "search_tree G t p'" "dom p' \<inter> dom pred = {}" "set f' \<subseteq> dom p'"
            by auto
          have a2: "dom pred \<inter> dom p' = {}" using a(2) by auto
          from "1.IH"(2)[OF ne False Inr Next "1.prems"(1,2) a(1) a2 "1.prems"(5) a(3)]
          show ?thesis using Inr Next ne False by (subst bfs_loop.simps) simp
        qed
      qed
    qed
  qed
qed

lemma successively_nth:
  "successively P xs \<longleftrightarrow> (\<forall>i. Suc i < length xs \<longrightarrow> P (xs ! i) (xs ! Suc i))"
proof (induction P xs rule: successively.induct)
  case (3 P x y xs)
  show ?case
  proof
    assume a: "successively P (x # y # xs)"
    show "\<forall>i. Suc i < length (x # y # xs) \<longrightarrow> P ((x # y # xs) ! i) ((x # y # xs) ! Suc i)"
    proof (intro allI impI)
      fix i assume "Suc i < length (x # y # xs)"
      then show "P ((x # y # xs) ! i) ((x # y # xs) ! Suc i)"
        using a 3 by (cases i) auto
    qed
  next
    assume a: "\<forall>i. Suc i < length (x # y # xs) \<longrightarrow> P ((x # y # xs) ! i) ((x # y # xs) ! Suc i)"
    have "P x y" using a[rule_format, of 0] by simp
    moreover have "\<forall>i. Suc i < length (y # xs) \<longrightarrow> P ((y # xs) ! i) ((y # xs) ! Suc i)"
      using a by (metis Suc_less_eq length_Cons nth_Cons_Suc)
    ultimately show "successively P (x # y # xs)" using 3 by simp
  qed
qed simp_all

lemma read_path_ok:
  assumes u: "undirected G" and tp: "search_tree G s pred" and ts: "search_tree G t succ"
    and wp: "w \<in> dom pred" and ws: "w \<in> dom succ" and meet: "dom pred \<inter> dom succ \<subseteq> {w}"
  shows "\<exists>p. read_path pred succ w = Some (Inr p) \<and> is_path G s t p \<and> distinct p"
proof -
  from tp wp obtain p1 where p1: "trail pred w p1" "distinct p1" "set p1 \<subseteq> dom pred"
    unfolding search_tree_def by blast
  from ts ws obtain p2 where p2: "trail succ w p2" "distinct p2" "set p2 \<subseteq> dom succ"
    unfolding search_tree_def by blast
  from trail_hd[OF p1(1)] have h1: "p1 \<noteq> []" "hd p1 = w" by auto
  from trail_hd[OF p2(1)] obtain q where q: "p2 = w # q" by (cases p2) auto
  have l1: "last p1 = s" using trail_last[OF p1(1)] tp by (auto simp: search_tree_def)
  have l2: "last p2 = t" using trail_last[OF p2(1)] ts by (auto simp: search_tree_def)
  have e1: "successively (\<lambda>x y. has_edge G y x) p1"
    using trail_edges[OF p1(1)] tp by (auto simp: search_tree_def)
  have e2: "successively (\<lambda>x y. has_edge G y x) p2"
    using trail_edges[OF p2(1)] ts by (auto simp: search_tree_def)
  have e2': "successively (has_edge G) p2"
    by (rule successively_mono[OF e2]) (blast intro: undirected_sym[OF u])
  have f1: "follow pred (Some w) [] = Some (Inr p1)" using follow_trail[OF p1(1), of "[]"] by simp
  have lastrev: "last (rev p1) = w" using h1 by (simp add: last_rev)
  have f2: "(case succ w of None \<Rightarrow> Some (Inl KeyError) | Some w' \<Rightarrow> follow succ w' (rev p1))
            = Some (Inr (rev p1 @ q))"
    using p2(1) unfolding q
  proof (cases rule: trail.cases)
    case trail_end
    then show ?thesis by (simp add: follow.simps)
  next
    case (trail_step v)
    then show ?thesis using follow_trail[of succ v q "rev p1"] by simp
  qed
  have res: "read_path pred succ w = Some (Inr (rev p1 @ q))"
    using f1 f2 h1 lastrev by (simp add: read_path_def Let_def)
  have ne: "rev p1 @ q \<noteq> []" using h1 by simp
  have hd: "hd (rev p1 @ q) = s" using h1 l1 by (simp add: hd_rev)
  have lst: "last (rev p1 @ q) = t"
    using l2 lastrev h1 unfolding q by (cases q) auto
  have qd: "set q \<subseteq> dom succ - {w}" using p2(2,3) unfolding q by auto
  have disj: "set p1 \<inter> set q = {}" using p1(3) qd meet by blast
  have dist: "distinct (rev p1 @ q)" using p1(2) p2(2) disj unfolding q by auto
  have er: "successively (has_edge G) (rev p1)" using e1 by simp
  have walk: "successively (has_edge G) (rev p1 @ q)"
  proof (cases q)
    case Nil
    then show ?thesis using er by simp
  next
    case (Cons y q')
    have "has_edge G w y" using e2' unfolding q Cons by simp
    moreover have "successively (has_edge G) q" using e2' unfolding q Cons by simp
    ultimately show ?thesis using er lastrev h1 Cons
      by (simp add: successively_append_iff)
  qed
  show ?thesis using res ne hd lst walk dist by (auto simp: is_path_def)
qed

lemma shortest_path_ok:
  assumes u: "undirected G" and s: "has_node G s" and t: "has_node G t"
  shows "bidirectional_shortest_path G s t = Some (Inl NetworkXNoPath) \<or>
         (\<exists>p. bidirectional_shortest_path G s t = Some (Inr p) \<and> is_path G s t p \<and> distinct p)"
proof (cases "t = s")
  case True
  have "\<exists>p. read_path [s \<mapsto> None] [s \<mapsto> None] s = Some (Inr p) \<and> is_path G s s p \<and> distinct p"
    by (rule read_path_ok[OF u search_tree_start[OF s] search_tree_start[OF s]]) auto
  then show ?thesis using True s
    by (simp add: bidirectional_shortest_path_def bidirectional_pred_succ_def)
next
  case False
  have d: "dom [s \<mapsto> None] \<inter> dom [t \<mapsto> None] = {}" using False by auto
  have inv: "case bfs_loop G [s \<mapsto> None] [t \<mapsto> None] [s] [t] of
            Inl e \<Rightarrow> e = NetworkXNoPath
          | Inr (pred', succ', w) \<Rightarrow> search_tree G s pred' \<and> search_tree G t succ'
                \<and> w \<in> dom pred' \<and> w \<in> dom succ' \<and> dom pred' \<inter> dom succ' \<subseteq> {w}"
    by (rule bfs_loop_inv[OF u search_tree_start[OF s] search_tree_start[OF t] d]) auto
  show ?thesis
  proof (cases "bfs_loop G [s \<mapsto> None] [t \<mapsto> None] [s] [t]")
    case (Inl e)
    with inv False s t show ?thesis
      by (simp add: bidirectional_shortest_path_def bidirectional_pred_succ_def)
  next
    case (Inr r)
    obtain p' s' w where r: "r = (p', s', w)" by (cases r)
    with inv Inr have "search_tree G s p'" "search_tree G t s'" "w \<in> dom p'" "w \<in> dom s'"
      "dom p' \<inter> dom s' \<subseteq> {w}" by auto
    from read_path_ok[OF u this] Inr r False s t show ?thesis
      by (simp add: bidirectional_shortest_path_def bidirectional_pred_succ_def)
  qed
qed

section \<open>The early returns of calculate_dacus_number\<close>

text \<open>
  C3.  An artist name that is not a node of the graph gives the pair \<^verbatim>\<open>(None, None)\<close>,
  whatever the graph is.
\<close>

theorem dacus_unknown_artist:
  "\<not> has_node G a \<Longrightarrow> calculate_dacus_number a G = Some (Inr (None, None))"
  by (simp add: calculate_dacus_number_def)

theorem dacus_unknown_artist_witness:
  "\<not> has_node [(Lucy_Dacus, Map.empty, [])] (Str ''Mitski'') \<and>
   calculate_dacus_number (Str ''Mitski'') [(Lucy_Dacus, Map.empty, [])] = Some (Inr (None, None))"
proof -
  have h: "\<not> has_node [(Lucy_Dacus, Map.empty, [])] (Str ''Mitski'')"
    by (simp add: has_node_def Lucy_Dacus_def)
  from h dacus_unknown_artist [OF h] show ?thesis by simp
qed

text \<open>
  C2.  The test for membership comes first: for the reference name the result is
  \<^verbatim>\<open>(0, ["Lucy Dacus"])\<close> when "Lucy Dacus" is a node of the graph.  When it is not, the
  result is \<^verbatim>\<open>(None, None)\<close>, as the empty graph shows.
\<close>

theorem dacus_reference_artist:
  "has_node G Lucy_Dacus \<Longrightarrow>
   calculate_dacus_number Lucy_Dacus G = Some (Inr (Some 0, Some [Lucy_Dacus]))"
  by (simp add: calculate_dacus_number_def)

theorem dacus_reference_artist_witness:
  "has_node [(Lucy_Dacus, Map.empty, [])] Lucy_Dacus \<and>
   calculate_dacus_number Lucy_Dacus [(Lucy_Dacus, Map.empty, [])]
     = Some (Inr (Some 0, Some [Lucy_Dacus]))"
proof -
  have h: "has_node [(Lucy_Dacus, Map.empty, [])] Lucy_Dacus"
    by (simp add: has_node_def)
  from h dacus_reference_artist [OF h] show ?thesis by simp
qed

theorem dacus_reference_absent_counterexample:
  "calculate_dacus_number (Str ''Lucy Dacus'') [] = Some (Inr (None, None)) \<and>
   calculate_dacus_number (Str ''Lucy Dacus'') [] \<noteq> Some (Inr (Some 0, Some [Str ''Lucy Dacus'']))"
  by (simp add: calculate_dacus_number_def has_node_def)

text \<open>
  C10.  When the artist is a node other than "Lucy Dacus" and "Lucy Dacus" is not a node,
  the search raises \<^verbatim>\<open>NodeNotFound\<close>; the handler catches \<^verbatim>\<open>NetworkXNoPath\<close> only, so the
  exception leaves the function.
\<close>

theorem dacus_reference_missing_raises:
  "has_node G a \<Longrightarrow> a \<noteq> Lucy_Dacus \<Longrightarrow> \<not> has_node G Lucy_Dacus \<Longrightarrow>
   calculate_dacus_number a G = Some (Inl NodeNotFound)"
  by (simp add: calculate_dacus_number_def bidirectional_shortest_path_def)

theorem dacus_reference_missing_raises_witness:
  "has_node [(Str ''Mitski'', Map.empty, [])] (Str ''Mitski'') \<and> Str ''Mitski'' \<noteq> Lucy_Dacus \<and>
   \<not> has_node [(Str ''Mitski'', Map.empty, [])] Lucy_Dacus \<and>
   calculate_dacus_number (Str ''Mitski'') [(Str ''Mitski'', Map.empty, [])] = Some (Inl NodeNotFound)"
proof -
  have h1: "has_node [(Str ''Mitski'', Map.empty, [])] (Str ''Mitski'')"
    by (simp add: has_node_def)
  have h2: "Str ''Mitski'' \<noteq> Lucy_Dacus"
    by (simp add: Lucy_Dacus_def)
  have h3: "\<not> has_node [(Str ''Mitski'', Map.empty, [])] Lucy_Dacus"
    by (simp add: has_node_def Lucy_Dacus_def)
  from h1 h2 h3 dacus_reference_missing_raises [OF h1 h2 h3] show ?thesis by simp
qed

section \<open>The path that is returned\<close>

lemma small_graph_undirected: "undirected small_graph"
  by (simp add: small_graph_def undirected_def neighbors_def adj_def Lucy_Dacus_def)

lemma no_path_from_isolated:
  assumes "neighbors G a = []" and "a \<noteq> b"
  shows "\<not> has_path G a b"
proof
  assume "has_path G a b"
  then obtain p where p: "p \<noteq> []" "hd p = a" "last p = b" "successively (has_edge G) p"
    by (auto simp: has_path_def is_path_def)
  then obtain q where q: "p = a # q" by (cases p) auto
  show False
  proof (cases q)
    case Nil
    with p q assms(2) show False by simp
  next
    case (Cons y r)
    with p(4) q have "has_edge G a y" by simp
    with assms(1) show False by (simp add: has_edge_def)
  qed
qed

lemma dacus_returns:
  assumes "undirected G"
  shows "\<exists>r. calculate_dacus_number a G = Some r"
proof (cases "has_node G a \<and> a \<noteq> Lucy_Dacus \<and> has_node G Lucy_Dacus")
  case True
  with shortest_path_ok[OF assms, of a Lucy_Dacus] show ?thesis
    by (auto simp: calculate_dacus_number_def)
next
  case False
  then show ?thesis
    by (auto simp: calculate_dacus_number_def bidirectional_shortest_path_def)
qed

text \<open>
  C1.  \<open>G\<close> is an undirected networkx graph: its neighbour lists are symmetric, which
  \<^verbatim>\<open>add_edge\<close> keeps true.  Whenever the function returns a distance \<open>d\<close> and a path \<open>p\<close>, the
  path has \<open>d + 1\<close> elements, starts at the artist, ends at "Lucy Dacus", each element has
  the next one as a neighbour in \<open>G\<close>, and no element occurs twice.
\<close>

theorem dacus_path_valid:
  assumes "undirected G" and "calculate_dacus_number a G = Some (Inr (Some d, Some p))"
  shows "int (length p) = d + 1 \<and> p \<noteq> [] \<and> p ! 0 = a \<and> last p = Lucy_Dacus \<and>
         (\<forall>i. Suc i < length p \<longrightarrow> has_edge G (p ! i) (p ! Suc i)) \<and> distinct p"
proof (cases "a = Lucy_Dacus")
  case True
  with assms(2) show ?thesis
    by (auto simp: calculate_dacus_number_def split: if_splits)
next
  case False
  from assms(2) have a: "has_node G a"
    by (auto simp: calculate_dacus_number_def split: if_splits)
  show ?thesis
  proof (cases "has_node G Lucy_Dacus")
    case False
    with assms(2) a \<open>a \<noteq> Lucy_Dacus\<close> show ?thesis
      by (simp add: calculate_dacus_number_def bidirectional_shortest_path_def)
  next
    case True
    from shortest_path_ok[OF assms(1) a True] assms(2) a \<open>a \<noteq> Lucy_Dacus\<close>
    have "is_path G a Lucy_Dacus p \<and> distinct p \<and> d = int (length p) - 1"
      by (auto simp: calculate_dacus_number_def)
    then show ?thesis
      by (auto simp: is_path_def successively_nth hd_conv_nth)
  qed
qed

theorem dacus_path_valid_witness:
  "undirected small_graph \<and>
   calculate_dacus_number (Str ''Julien Baker'') small_graph
     = Some (Inr (Some 1, Some [Str ''Julien Baker'', Lucy_Dacus])) \<and>
   int (length [Str ''Julien Baker'', Lucy_Dacus]) = 1 + 1 \<and>
   [Str ''Julien Baker'', Lucy_Dacus] ! 0 = Str ''Julien Baker'' \<and>
   last [Str ''Julien Baker'', Lucy_Dacus] = Lucy_Dacus \<and>
   has_edge small_graph (Str ''Julien Baker'') Lucy_Dacus \<and>
   distinct [Str ''Julien Baker'', Lucy_Dacus]"
proof -
  have c: "calculate_dacus_number (Str ''Julien Baker'') small_graph
             = Some (Inr (Some 1, Some [Str ''Julien Baker'', Lucy_Dacus]))"
    by code_simp
  from dacus_path_valid [OF small_graph_undirected c]
  have "has_edge small_graph ([Str ''Julien Baker'', Lucy_Dacus] ! 0)
          ([Str ''Julien Baker'', Lucy_Dacus] ! Suc 0) \<and> distinct [Str ''Julien Baker'', Lucy_Dacus]"
    by simp
  with small_graph_undirected c show ?thesis by simp
qed

text \<open>
  C4.  An artist that is a node, in a graph in which "Lucy Dacus" is a node too, and from
  which no path leads to "Lucy Dacus": the search raises \<^verbatim>\<open>NetworkXNoPath\<close>, the handler
  catches it, and the function returns \<^verbatim>\<open>(None, None)\<close>, the value it returns for an
  unknown artist.  When "Lucy Dacus" is not a node there is no path either, but then
  the function raises \<^verbatim>\<open>NodeNotFound\<close>, as \<open>lone_graph\<close> shows.
\<close>

theorem dacus_no_path:
  assumes "undirected G" and "has_node G a" and "has_node G Lucy_Dacus"
    and "\<not> has_path G a Lucy_Dacus"
  shows "calculate_dacus_number a G = Some (Inr (None, None))"
proof -
  have ne: "a \<noteq> Lucy_Dacus"
  proof
    assume "a = Lucy_Dacus"
    then have "is_path G a Lucy_Dacus [a]" by (simp add: is_path_def)
    with assms(4) show False by (auto simp: has_path_def)
  qed
  from shortest_path_ok[OF assms(1,2,3)] assms(4)
  have "bidirectional_shortest_path G a Lucy_Dacus = Some (Inl NetworkXNoPath)"
    by (auto simp: has_path_def)
  with ne assms(2) show ?thesis by (simp add: calculate_dacus_number_def)
qed

theorem dacus_no_path_witness:
  "undirected small_graph \<and> has_node small_graph (Str ''Mitski'') \<and>
   has_node small_graph Lucy_Dacus \<and> \<not> has_path small_graph (Str ''Mitski'') Lucy_Dacus \<and>
   calculate_dacus_number (Str ''Mitski'') small_graph = Some (Inr (None, None))"
proof -
  have h2: "has_node small_graph (Str ''Mitski'')"
    by (simp add: small_graph_def has_node_def)
  have h3: "has_node small_graph Lucy_Dacus"
    by (simp add: small_graph_def has_node_def)
  have h4: "\<not> has_path small_graph (Str ''Mitski'') Lucy_Dacus"
    by (rule no_path_from_isolated)
       (simp_all add: small_graph_def neighbors_def adj_def Lucy_Dacus_def)
  from small_graph_undirected h2 h3 h4 dacus_no_path [OF small_graph_undirected h2 h3 h4]
  show ?thesis by simp
qed

theorem dacus_no_path_counterexample:
  "undirected lone_graph \<and> has_node lone_graph (Str ''Mitski'') \<and>
   \<not> has_path lone_graph (Str ''Mitski'') Lucy_Dacus \<and>
   calculate_dacus_number (Str ''Mitski'') lone_graph = Some (Inl NodeNotFound) \<and>
   calculate_dacus_number (Str ''Mitski'') lone_graph \<noteq> Some (Inr (None, None))"
proof -
  have 1: "undirected lone_graph"
    by (simp add: lone_graph_def undirected_def neighbors_def adj_def)
  have 2: "has_node lone_graph (Str ''Mitski'')"
    by (simp add: lone_graph_def has_node_def)
  have 3: "\<not> has_path lone_graph (Str ''Mitski'') Lucy_Dacus"
    by (rule no_path_from_isolated)
       (simp_all add: lone_graph_def neighbors_def adj_def Lucy_Dacus_def)
  have 4: "calculate_dacus_number (Str ''Mitski'') lone_graph = Some (Inl NodeNotFound)"
    by (simp add: calculate_dacus_number_def bidirectional_shortest_path_def lone_graph_def
          has_node_def Lucy_Dacus_def)
  from 1 2 3 4 show ?thesis by simp
qed

section \<open>What the graph operations do to nodes and neighbours\<close>

lemma neighbors_not_node: "\<not> has_node G n \<Longrightarrow> neighbors G n = []"
  using adj_has_node[of G n] by (cases "adj G n") (auto simp: neighbors_def)

lemma adj_neighbors: "adj G n = (if has_node G n then Some (neighbors G n) else None)"
  using adj_has_node[of G n] by (cases "adj G n") (auto simp: neighbors_def)

lemma undirected_symmetric: "undirected G \<longleftrightarrow> symmetric (neighbors G)"
proof
  assume "undirected G"
  then show "symmetric (neighbors G)"
    unfolding symmetric_def using undirected_sym[of G] by (auto simp: has_edge_def)
next
  assume "symmetric (neighbors G)"
  then show "undirected G" by (auto simp: symmetric_def undirected_def)
qed

lemma has_node_append: "has_node (G @ H) x \<longleftrightarrow> has_node G x \<or> has_node H x"
  by (auto simp: has_node_def)

lemma keys_add_node_map:
  "map fst (map (\<lambda>(k, a', ns). if k = n then (k, a' ++ a, ns) else (k, a', ns)) G) = map fst G"
  by (induction G) auto

lemma keys_add_nbr: "map fst (add_nbr u v G) = map fst G"
  unfolding add_nbr_def by (induction G) auto

lemma has_node_add_node [simp]: "has_node (add_node n a G) x \<longleftrightarrow> x = n \<or> has_node G x"
  unfolding add_node_def has_node_def
  by (simp only: keys_add_node_map split: if_splits) auto

lemma has_node_add_nodes_from [simp]:
  "has_node (add_nodes_from xs a G) x \<longleftrightarrow> x \<in> set xs \<or> has_node G x"
  unfolding add_nodes_from_def by (induction xs arbitrary: G) auto

lemma has_node_ensure_node [simp]: "has_node (ensure_node n G) x \<longleftrightarrow> x = n \<or> has_node G x"
  by (auto simp: ensure_node_def has_node_def)

lemma has_node_add_nbr [simp]: "has_node (add_nbr u v G) x \<longleftrightarrow> has_node G x"
  by (simp add: has_node_def keys_add_nbr)

lemma has_node_add_edge [simp]: "has_node (add_edge u v G) x \<longleftrightarrow> x = u \<or> x = v \<or> has_node G x"
  by (auto simp: add_edge_def)

lemma adj_append: "adj (G @ H) x = (if has_node G x then adj G x else adj H x)"
  using adj_has_node[of G x]
  by (auto simp: adj_def map_add_def split: option.splits)

lemma neighbors_add_node [simp]: "neighbors (add_node n a G) = neighbors G"
proof
  fix x
  have "adj (map (\<lambda>(k, a', ns). if k = n then (k, a' ++ a, ns) else (k, a', ns)) G) x = adj G x"
    by (induction G) (auto simp: adj_def split: prod.splits if_splits)
  moreover have "neighbors (G @ [(n, a, [])]) x = neighbors G x" if "\<not> has_node G n"
    using that adj_has_node[of G x] by (auto simp: neighbors_def adj_append) (auto simp: adj_def)
  ultimately show "neighbors (add_node n a G) x = neighbors G x"
    by (auto simp: add_node_def neighbors_def)
qed

lemma neighbors_add_nodes_from [simp]: "neighbors (add_nodes_from xs a G) = neighbors G"
  unfolding add_nodes_from_def by (induction xs arbitrary: G) auto

lemma neighbors_ensure_node [simp]: "neighbors (ensure_node n G) = neighbors G"
proof
  fix x
  have "neighbors (G @ [(n, Map.empty, [])]) x = neighbors G x" if "\<not> has_node G n"
    using that adj_has_node[of G x] by (auto simp: neighbors_def adj_append) (auto simp: adj_def)
  then show "neighbors (ensure_node n G) x = neighbors G x"
    by (auto simp: ensure_node_def)
qed

lemma adj_add_nbr:
  "adj (add_nbr u v G) x =
     (if x = u then map_option (\<lambda>ns. if v \<in> set ns then ns else ns @ [v]) (adj G u) else adj G x)"
  by (induction G) (auto simp: adj_def add_nbr_def split: prod.splits if_splits)

lemma neighbors_add_nbr: "has_node G u \<Longrightarrow> neighbors (add_nbr u v G) = link u v (neighbors G)"
proof
  fix x
  assume "has_node G u"
  then obtain ns where "adj G u = Some ns" using adj_has_node[of G u] by auto
  then show "neighbors (add_nbr u v G) x = link u v (neighbors G) x"
    by (auto simp: neighbors_def adj_add_nbr link_def)
qed

lemma neighbors_add_edge [simp]: "neighbors (add_edge u v G) = join u v (neighbors G)"
  by (simp add: add_edge_def neighbors_add_nbr join_def)

lemma neighbors_fold_add_edge:
  "neighbors (fold (\<lambda>(u, v). add_edge u v) es G) = fold (\<lambda>(u, v). join u v) es (neighbors G)"
  by (induction es arbitrary: G) (auto split: prod.splits)

lemma has_node_fold_add_edge:
  "has_node (fold (\<lambda>(u, v). add_edge u v) es G) x \<longleftrightarrow>
     has_node G x \<or> x \<in> fst ` set es \<or> x \<in> snd ` set es"
  by (induction es arbitrary: G) (auto split: prod.splits)

lemma symmetric_join: "symmetric N \<Longrightarrow> symmetric (join u v N)"
  unfolding symmetric_def join_def link_def by (auto split: if_splits)

lemma symmetric_fold_join: "symmetric N \<Longrightarrow> symmetric (fold (\<lambda>(u, v). join u v) es N)"
  by (induction es arbitrary: N) (auto intro: symmetric_join split: prod.splits)

lemma neighbors_Nil [simp]: "neighbors [] = (\<lambda>x. [])"
  by (auto simp: neighbors_def adj_def)

lemma has_node_Nil [simp]: "\<not> has_node [] x"
  by (simp add: has_node_def)

lemma map_sum_Inr [simp]: "map_sum id f x = Inr y \<longleftrightarrow> (\<exists>z. x = Inr z \<and> y = f z)"
  by (cases x) auto

lemma map_sum_Inl [simp]: "map_sum id f x = Inl e \<longleftrightarrow> x = Inl e"
  by (cases x) auto

lemma build_graph_neighbors:
  "build_graph it df sim b = Inr G \<Longrightarrow>
   neighbors G = fold (\<lambda>(u, v). join u v) (similarity_edges sim) (\<lambda>x. [])"
  by (auto simp: build_graph_def add_unconnected_def add_similarity_edges_def Let_def
        neighbors_fold_add_edge split: sum.splits if_splits)

lemma build_graph_undirected: "build_graph it df sim b = Inr G \<Longrightarrow> undirected G"
proof -
  assume b: "build_graph it df sim b = Inr G"
  have "symmetric (\<lambda>x::cell. [])" by (simp add: symmetric_def)
  then have "symmetric (fold (\<lambda>(u, v). join u v) (similarity_edges sim) (\<lambda>x. []))"
    by (rule symmetric_fold_join)
  then show ?thesis by (simp add: undirected_symmetric build_graph_neighbors[OF b])
qed


lemma enumerates_remdups: "enumerates remdups"
  by (simp add: enumerates_def)

section \<open>The order of set iteration does not matter\<close>

lemma alike_refl: "alike G G"
  by (simp add: alike_def)

lemma alike_add_nodes_from:
  "alike G H \<Longrightarrow> set xs = set ys \<Longrightarrow> alike (add_nodes_from xs a G) (add_nodes_from ys b H)"
  by (simp add: alike_def)

lemma alike_add_similarity_edges:
  "alike G H \<Longrightarrow> alike (add_similarity_edges sim G) (add_similarity_edges sim H)"
  by (simp add: alike_def add_similarity_edges_def neighbors_fold_add_edge has_node_fold_add_edge)

lemma origin_artists_order:
  assumes "enumerates i1" "enumerates i2"
  shows "case origin_artists i1 names df of
           Inl e \<Rightarrow> origin_artists i2 names df = Inl e
         | Inr xs \<Rightarrow> \<exists>ys. origin_artists i2 names df = Inr ys \<and> set xs = set ys"
  using assms
  by (cases "split_explode_strip (where_origin (isin names) df)")
     (simp_all add: origin_artists_def enumerates_def)

lemma liked_artists_order:
  assumes "enumerates i1" "enumerates i2"
  shows "case liked_artists i1 df of
           Inl e \<Rightarrow> liked_artists i2 df = Inl e
         | Inr xs \<Rightarrow> \<exists>ys. liked_artists i2 df = Inr ys \<and> set xs = set ys"
  using origin_artists_order[OF assms, of "[''df_liked'', ''df_fav_albums'']" df]
  by (cases "has_column df ''playlist_origin'' \<and> has_column df ''Artist Name(s)''")
     (auto simp: liked_artists_def split: sum.splits)

lemma similar_artists_liked_order:
  assumes "enumerates i1" "enumerates i2"
  shows "case similar_artists_liked i1 sim of
           Inl e \<Rightarrow> similar_artists_liked i2 sim = Inl e
         | Inr xs \<Rightarrow> \<exists>ys. similar_artists_liked i2 sim = Inr ys \<and> set xs = set ys"
  using assms
  by (cases "split_explode_strip (dropna (column sim ''Similar Artists''))")
     (simp_all add: similar_artists_liked_def enumerates_def)

lemma add_unconnected_order:
  assumes e: "enumerates i1" "enumerates i2" and a: "alike G H"
  shows "alike_results (add_unconnected i1 df G) (add_unconnected i2 df H)"
proof (cases "origin_artists i1 [''df_nmf''] df")
  case (Inl e1)
  with origin_artists_order[OF e, of "[''df_nmf'']" df] show ?thesis
    by (simp add: add_unconnected_def alike_results_def)
next
  case n1: (Inr N1)
  with origin_artists_order[OF e, of "[''df_nmf'']" df] obtain N2 where
    n2: "origin_artists i2 [''df_nmf''] df = Inr N2" "set N1 = set N2" by auto
  show ?thesis
  proof (cases "origin_artists i1 [''df_not_liked''] df")
    case (Inl e1)
    with origin_artists_order[OF e, of "[''df_not_liked'']" df] n1 n2 show ?thesis
      by (simp add: add_unconnected_def alike_results_def)
  next
    case d1: (Inr D1)
    with origin_artists_order[OF e, of "[''df_not_liked'']" df] obtain D2 where
      d2: "origin_artists i2 [''df_not_liked''] df = Inr D2" "set D1 = set D2" by auto
    have "alike (add_nodes_from D1 (tag ''not_liked'') (add_nodes_from N1 (tag ''nmf'') G))
                (add_nodes_from D2 (tag ''not_liked'') (add_nodes_from N2 (tag ''nmf'') H))"
      by (intro alike_add_nodes_from a n2(2) d2(2))
    with n1 n2 d1 d2 show ?thesis
      by (simp add: add_unconnected_def alike_results_def)
  qed
qed

lemma build_graph_order:
  assumes e: "enumerates i1" "enumerates i2"
  shows "alike_results (build_graph i1 df sim b) (build_graph i2 df sim b)"
proof (cases "liked_artists i1 df")
  case (Inl e1)
  with liked_artists_order[OF e, of df] show ?thesis
    by (simp add: build_graph_def alike_results_def)
next
  case l1: (Inr L1)
  with liked_artists_order[OF e, of df] obtain L2 where
    l2: "liked_artists i2 df = Inr L2" "set L1 = set L2" by auto
  show ?thesis
  proof (cases "similar_artists_liked i1 sim")
    case (Inl e1)
    with similar_artists_liked_order[OF e, of sim] l1 l2 show ?thesis
      by (simp add: build_graph_def alike_results_def)
  next
    case s1: (Inr S1)
    with similar_artists_liked_order[OF e, of sim] obtain S2 where
      s2: "similar_artists_liked i2 sim = Inr S2" "set S1 = set S2" by auto
    define H1 where "H1 = add_similarity_edges sim
        (add_nodes_from S1 (tag ''similar_liked'') (add_nodes_from L1 (tag ''liked'') []))"
    define H2 where "H2 = add_similarity_edges sim
        (add_nodes_from S2 (tag ''similar_liked'') (add_nodes_from L2 (tag ''liked'') []))"
    have h: "alike H1 H2" unfolding H1_def H2_def
      by (intro alike_add_similarity_edges alike_add_nodes_from alike_refl l2(2) s2(2))
    have b1: "build_graph i1 df sim b =
        (if b \<and> has_column df ''playlist_origin'' \<and> has_column df ''Artist Name(s)''
         then add_unconnected i1 df H1 else Inr H1)"
      using l1 s1 by (simp add: build_graph_def H1_def Let_def)
    have b2: "build_graph i2 df sim b =
        (if b \<and> has_column df ''playlist_origin'' \<and> has_column df ''Artist Name(s)''
         then add_unconnected i2 df H2 else Inr H2)"
      using l2 s2 by (simp add: build_graph_def H2_def Let_def)
    show ?thesis
    proof (cases "b \<and> has_column df ''playlist_origin'' \<and> has_column df ''Artist Name(s)''")
      case True
      then have "build_graph i1 df sim b = add_unconnected i1 df H1"
        "build_graph i2 df sim b = add_unconnected i2 df H2"
        unfolding b1 b2 by auto
      then show ?thesis using add_unconnected_order[OF e h, of df] by simp
    next
      case False
      then have "build_graph i1 df sim b = Inr H1" "build_graph i2 df sim b = Inr H2"
        unfolding b1 b2 by auto
      then show ?thesis using h by (simp add: alike_results_def)
    qed
  qed
qed

lemma scan_level_cong: "adj G = adj H \<Longrightarrow> scan_level G vs m ot f = scan_level H vs m ot f"
  by (induction vs arbitrary: m f) (auto split: option.splits scan.splits)

lemma bfs_loop_cong:
  "adj G = adj H \<Longrightarrow> bfs_loop G p s ff rf = bfs_loop H p s ff rf"
proof (induction G p s ff rf rule: bfs_loop.induct)
  case (1 G pred succ ff rf)
  note sl = scan_level_cong[OF "1.prems"]
  note unf = bfs_loop.simps[of G pred succ ff rf] bfs_loop.simps[of H pred succ ff rf]
  show ?case
  proof (cases "ff = [] \<or> rf = []")
    case True
    then show ?thesis unfolding unf by simp
  next
    case ne: False
    show ?thesis
    proof (cases "length ff \<le> length rf")
      case True
      show ?thesis
      proof (cases "scan_level G ff pred succ []")
        case (Inl e)
        then have "scan_level H ff pred succ [] = Inl e" using sl[of ff pred succ "[]"] by simp
        with Inl ne True show ?thesis unfolding unf by simp
      next
        case (Inr sc)
        then have h: "scan_level H ff pred succ [] = Inr sc" using sl[of ff pred succ "[]"] by simp
        show ?thesis
        proof (cases sc)
          case (Hit m w)
          with Inr h ne True show ?thesis unfolding unf by simp
        next
          case (Next m f)
          from "1.IH"(1)[OF ne True Inr Next "1.prems"] Inr h Next ne True
          show ?thesis unfolding unf by simp
        qed
      qed
    next
      case False
      show ?thesis
      proof (cases "scan_level G rf succ pred []")
        case (Inl e)
        then have "scan_level H rf succ pred [] = Inl e" using sl[of rf succ pred "[]"] by simp
        with Inl ne False show ?thesis unfolding unf by simp
      next
        case (Inr sc)
        then have h: "scan_level H rf succ pred [] = Inr sc" using sl[of rf succ pred "[]"] by simp
        show ?thesis
        proof (cases sc)
          case (Hit m w)
          with Inr h ne False show ?thesis unfolding unf by simp
        next
          case (Next m f)
          from "1.IH"(2)[OF ne False Inr Next "1.prems"] Inr h Next ne False
          show ?thesis unfolding unf by simp
        qed
      qed
    qed
  qed
qed

lemma alike_adj: "alike G H \<Longrightarrow> adj G = adj H"
  by (auto simp: alike_def adj_neighbors)

lemma calculate_dacus_number_alike:
  assumes "alike G H"
  shows "calculate_dacus_number a G = calculate_dacus_number a H"
proof -
  have n: "has_node G x = has_node H x" for x using assms by (simp add: alike_def)
  have "bidirectional_shortest_path G a Lucy_Dacus = bidirectional_shortest_path H a Lucy_Dacus"
    by (simp add: bidirectional_shortest_path_def bidirectional_pred_succ_def n
          bfs_loop_cong[OF alike_adj[OF assms]])
  then show ?thesis by (simp add: calculate_dacus_number_def n)
qed

lemma node_set_has_node: "node_set G = {x. has_node G x}"
  by (auto simp: node_set_def has_node_def)

lemma alike_sets: "alike G H \<Longrightarrow> node_set G = node_set H \<and> edge_set G = edge_set H"
  by (simp add: alike_def node_set_has_node edge_set_def has_edge_def)

lemma Inr_projr: "\<not> isl r \<Longrightarrow> r = Inr (projr r)"
  by (cases r) auto

section \<open>The graph that build_graph returns\<close>

text \<open>
  C9.  The only thing the function does not fix is the order in which Python iterates over
  the sets of names.  Whatever two orders two calls on the same tables and flag meet,
  both raise the same exception or both return graphs with the same set of nodes and the
  same set of edges.
\<close>

theorem build_graph_deterministic:
  assumes "enumerates i1" and "enumerates i2"
  shows "case build_graph i1 df sim b of
           Inl e \<Rightarrow> build_graph i2 df sim b = Inl e
         | Inr G1 \<Rightarrow> (\<exists>G2. build_graph i2 df sim b = Inr G2
                          \<and> node_set G1 = node_set G2 \<and> edge_set G1 = edge_set G2)"
  using build_graph_order[OF assms, of df sim b]
  by (auto simp: alike_results_def dest: alike_sets split: sum.splits)

theorem build_graph_deterministic_witness:
  "enumerates remdups \<and> enumerates (\<lambda>xs. rev (remdups xs)) \<and>
   node_set (projr (build_graph remdups liked_table similar_table True))
     = node_set (projr (build_graph (\<lambda>xs. rev (remdups xs)) liked_table similar_table True)) \<and>
   edge_set (projr (build_graph remdups liked_table similar_table True))
     = edge_set (projr (build_graph (\<lambda>xs. rev (remdups xs)) liked_table similar_table True))"
proof -
  have e1: "enumerates remdups" by (simp add: enumerates_def)
  have e2: "enumerates (\<lambda>xs. rev (remdups xs))" by (simp add: enumerates_def)
  have "\<not> isl (build_graph remdups liked_table similar_table True)" by code_simp
  then have r: "build_graph remdups liked_table similar_table True
      = Inr (projr (build_graph remdups liked_table similar_table True))"
    by (rule Inr_projr)
  from build_graph_deterministic [OF e1 e2, of liked_table similar_table True]
  have "\<exists>G2. build_graph (\<lambda>xs. rev (remdups xs)) liked_table similar_table True = Inr G2
      \<and> node_set (projr (build_graph remdups liked_table similar_table True)) = node_set G2
      \<and> edge_set (projr (build_graph remdups liked_table similar_table True)) = edge_set G2"
    by (subst (asm) r) simp
  with e1 e2 show ?thesis by auto
qed

text \<open>
  C8.  The example of the specification: the only liked artist is "Lucy Dacus", and the
  similarity table has the rows ("Lucy Dacus", "Julien Baker, Phoebe Bridgers") and
  ("Julien Baker", "boygenius").  On the graph that is built, with either value of the
  flag, "boygenius" is at distance 2 by way of "Julien Baker", and "Mitski", who is
  absent, gives \<^verbatim>\<open>(None, None)\<close>.
\<close>

theorem dacus_example:
  assumes "enumerates it"
  shows "\<exists>G. build_graph it liked_table similar_table include_nmf = Inr G \<and>
           calculate_dacus_number (Str ''boygenius'') G
             = Some (Inr (Some 2, Some [Str ''boygenius'', Str ''Julien Baker'', Str ''Lucy Dacus''])) \<and>
           calculate_dacus_number (Str ''Mitski'') G = Some (Inr (None, None))"
proof -
  define G0 where "G0 = projr (build_graph remdups liked_table similar_table include_nmf)"
  have "\<not> isl (build_graph remdups liked_table similar_table True)"
    "\<not> isl (build_graph remdups liked_table similar_table False)"
    by code_simp+
  then have "\<not> isl (build_graph remdups liked_table similar_table include_nmf)"
    by (cases include_nmf) simp_all
  then have r: "build_graph remdups liked_table similar_table include_nmf = Inr G0"
    unfolding G0_def by (rule Inr_projr)
  have "calculate_dacus_number (Str ''boygenius'')
          (projr (build_graph remdups liked_table similar_table True))
      = Some (Inr (Some 2, Some [Str ''boygenius'', Str ''Julien Baker'', Str ''Lucy Dacus'']))"
    "calculate_dacus_number (Str ''boygenius'')
          (projr (build_graph remdups liked_table similar_table False))
      = Some (Inr (Some 2, Some [Str ''boygenius'', Str ''Julien Baker'', Str ''Lucy Dacus'']))"
    by code_simp+
  then have c1: "calculate_dacus_number (Str ''boygenius'') G0
      = Some (Inr (Some 2, Some [Str ''boygenius'', Str ''Julien Baker'', Str ''Lucy Dacus'']))"
    unfolding G0_def by (cases include_nmf) simp_all
  have "calculate_dacus_number (Str ''Mitski'')
          (projr (build_graph remdups liked_table similar_table True)) = Some (Inr (None, None))"
    "calculate_dacus_number (Str ''Mitski'')
          (projr (build_graph remdups liked_table similar_table False)) = Some (Inr (None, None))"
    by code_simp+
  then have c2: "calculate_dacus_number (Str ''Mitski'') G0 = Some (Inr (None, None))"
    unfolding G0_def by (cases include_nmf) simp_all
  from build_graph_order[OF enumerates_remdups assms, of liked_table similar_table include_nmf] r
  obtain G where G: "build_graph it liked_table similar_table include_nmf = Inr G" "alike G0 G"
    by (auto simp: alike_results_def split: sum.splits)
  from calculate_dacus_number_alike[OF G(2)] c1 c2 G(1) show ?thesis by simp
qed

theorem dacus_example_witness:
  "enumerates remdups \<and>
   (\<exists>G. build_graph remdups liked_table similar_table False = Inr G \<and>
           calculate_dacus_number (Str ''boygenius'') G
             = Some (Inr (Some 2, Some [Str ''boygenius'', Str ''Julien Baker'', Str ''Lucy Dacus''])) \<and>
           calculate_dacus_number (Str ''Mitski'') G = Some (Inr (None, None)))"
  using dacus_example [OF enumerates_remdups, of False] enumerates_remdups by simp

lemma build_graph_without_nmf:
  assumes "build_graph it df sim True = Inr G"
  shows "\<exists>G0. build_graph it df sim False = Inr G0 \<and> neighbors G = neighbors G0"
proof -
  from assms obtain L where l: "liked_artists it df = Inr L"
    by (cases "liked_artists it df") (auto simp: build_graph_def)
  from assms l obtain S where s: "similar_artists_liked it sim = Inr S"
    by (cases "similar_artists_liked it sim") (auto simp: build_graph_def)
  define H where "H = add_similarity_edges sim
        (add_nodes_from S (tag ''similar_liked'') (add_nodes_from L (tag ''liked'') []))"
  have f: "build_graph it df sim False = Inr H"
    using l s by (simp add: build_graph_def H_def Let_def)
  have "neighbors G = neighbors H"
    using build_graph_neighbors[OF assms] build_graph_neighbors[OF f] by simp
  with f show ?thesis by blast
qed

text \<open>
  C6.  The last step adds nodes and no edge: with the flag set the graph has the edges of
  the graph built without it, and every artist that is a node only through that step (it
  is not a node of the graph built without the flag) has degree 0 and is in no edge.  An
  NMF artist who also occurs in the similarity table keeps the edges from there, as
  "Mitski" does in \<open>nmf_similar\<close>.
\<close>

theorem nmf_nodes_isolated:
  assumes "build_graph it df sim True = Inr G"
  shows "\<exists>G0. build_graph it df sim False = Inr G0 \<and> edge_set G = edge_set G0 \<and>
           (\<forall>n. has_node G n \<and> \<not> has_node G0 n \<longrightarrow>
                 degree G n = 0 \<and> (\<forall>m. \<not> has_edge G n m \<and> \<not> has_edge G m n))"
proof -
  from build_graph_without_nmf[OF assms] obtain G0 where
    g0: "build_graph it df sim False = Inr G0" and nb: "neighbors G = neighbors G0" by blast
  have u: "undirected G0" by (rule build_graph_undirected[OF g0])
  have es: "edge_set G = edge_set G0" by (simp add: edge_set_def has_edge_def nb)
  have iso: "degree G n = 0 \<and> (\<forall>m. \<not> has_edge G n m \<and> \<not> has_edge G m n)"
    if "\<not> has_node G0 n" for n
  proof -
    have e: "neighbors G0 n = []" using that by (rule neighbors_not_node)
    have "\<not> has_edge G0 m n" for m
      using has_edge_right[OF u, of m n] that by blast
    then show ?thesis using e by (simp add: degree_def has_edge_def nb)
  qed
  from g0 es iso show ?thesis by blast
qed

theorem nmf_nodes_isolated_witness:
  "build_graph remdups nmf_table [] True = Inr (projr (build_graph remdups nmf_table [] True)) \<and>
   has_node (projr (build_graph remdups nmf_table [] True)) (Str ''Mitski'') \<and>
   \<not> has_node (projr (build_graph remdups nmf_table [] False)) (Str ''Mitski'') \<and>
   degree (projr (build_graph remdups nmf_table [] True)) (Str ''Mitski'') = 0"
proof -
  have "\<not> isl (build_graph remdups nmf_table [] True)" by code_simp
  then have r: "build_graph remdups nmf_table [] True
      = Inr (projr (build_graph remdups nmf_table [] True))"
    by (rule Inr_projr)
  have h: "has_node (projr (build_graph remdups nmf_table [] True)) (Str ''Mitski'')"
    by code_simp
  have n: "\<not> has_node (projr (build_graph remdups nmf_table [] False)) (Str ''Mitski'')"
    by code_simp
  from nmf_nodes_isolated [OF r] obtain G0 where
    g0: "build_graph remdups nmf_table [] False = Inr G0" and
    iso: "\<forall>n. has_node (projr (build_graph remdups nmf_table [] True)) n \<and> \<not> has_node G0 n
           \<longrightarrow> degree (projr (build_graph remdups nmf_table [] True)) n = 0
               \<and> (\<forall>m. \<not> has_edge (projr (build_graph remdups nmf_table [] True)) n m
                    \<and> \<not> has_edge (projr (build_graph remdups nmf_table [] True)) m n)"
    by blast
  from g0 n have "\<not> has_node G0 (Str ''Mitski'')" by simp
  with iso h have "degree (projr (build_graph remdups nmf_table [] True)) (Str ''Mitski'') = 0"
    by blast
  with r h n show ?thesis by simp
qed

theorem nmf_nodes_isolated_counterexample:
  "origin_artists remdups [''df_nmf''] nmf_table = Inr [Str ''Mitski''] \<and>
   \<not> isl (build_graph remdups nmf_table nmf_similar True) \<and>
   node_type (projr (build_graph remdups nmf_table nmf_similar True)) (Str ''Mitski'') = Some ''nmf'' \<and>
   degree (projr (build_graph remdups nmf_table nmf_similar True)) (Str ''Mitski'') = 1 \<and>
   has_edge (projr (build_graph remdups nmf_table nmf_similar True)) (Str ''Mitski'') (Str ''Lucy Dacus'')"
  by code_simp

section \<open>Where build_graph departs from its description\<close>

lemma origin_artists_raises: "origin_artists it names df = Inl e \<Longrightarrow> e = AttributeError"
  by (auto simp: origin_artists_def split_explode_strip_def split: if_splits)

lemma build_graph_empty_tables: "build_graph it [] [] include_nmf = Inr []"
  by (simp add: build_graph_def liked_artists_def similar_artists_liked_def has_column_def
        add_similarity_edges_def similarity_edges_def add_nodes_from_def)

lemma build_graph_text_columns:
  assumes "dtype_of (column df ''Artist Name(s)'') = Object"
    and "dtype_of (column sim ''Similar Artists'') = Object"
  shows "\<exists>G. build_graph it df sim include_nmf = Inr G"
proof -
  have o: "\<exists>xs. origin_artists it names df = Inr xs" for names
    using assms(1) by (simp add: origin_artists_def split_explode_strip_def where_origin_def)
  have "\<exists>L. liked_artists it df = Inr L"
    using o[of "[''df_liked'', ''df_fav_albums'']"]
    by (cases "has_column df ''playlist_origin'' \<and> has_column df ''Artist Name(s)''")
       (auto simp: liked_artists_def)
  then obtain L where l: "liked_artists it df = Inr L" by blast
  have "\<exists>S. similar_artists_liked it sim = Inr S"
    using assms(2)
    by (cases "has_column sim ''Similar Artists''")
       (auto simp: similar_artists_liked_def split_explode_strip_def dropna_def)
  then obtain S where s: "similar_artists_liked it sim = Inr S" by blast
  from o obtain N where n: "origin_artists it [''df_nmf''] df = Inr N" by blast
  from o obtain D where d: "origin_artists it [''df_not_liked''] df = Inr D" by blast
  show ?thesis
    using l s n d by (simp add: build_graph_def add_unconnected_def Let_def)
qed

lemma blank_row_no_edges: "row_edges (a, NaN) = []"
  by (simp add: row_edges_def)

text \<open>
  C5.  Tables without the columns, and tables without rows, give a graph and no exception
  (\<open>build_graph_empty_tables\<close>, \<open>build_graph_text_columns\<close>), and a blank similar-artists
  field gives no edge (\<open>blank_row_no_edges\<close>).  But when the similar-artists field is blank
  in every row, the column is not a text column, and \<^verbatim>\<open>.str\<close> on it raises
  \<^verbatim>\<open>AttributeError\<close> although \<^verbatim>\<open>dropna()\<close> has left it empty: the function raises.
\<close>

theorem build_graph_blank_column_raises:
  "build_graph it liked_table blank_similar include_nmf = Inl AttributeError"
proof -
  have "similar_artists_liked it blank_similar = Inl AttributeError"
    by (simp add: similar_artists_liked_def blank_similar_def has_column_def column_def
          dropna_def split_explode_strip_def)
  moreover have "liked_artists it liked_table = Inl AttributeError \<or>
      (\<exists>L. liked_artists it liked_table = Inr L)"
    using origin_artists_raises[of it _ liked_table]
    by (cases "liked_artists it liked_table") (auto simp: liked_artists_def split: if_splits)
  ultimately show ?thesis by (auto simp: build_graph_def)
qed

text \<open>
  C7.  The nodes that \<^verbatim>\<open>add_nodes_from\<close> adds are stripped names with a tag.  The nodes that
  \<^verbatim>\<open>add_edge\<close> adds are not: the pieces of \<^verbatim>\<open>split(', ')\<close> are not stripped and get no
  \<^verbatim>\<open>type\<close>.  For the similar artists "Julien Baker, Phoebe Bridgers " the graph has the node
  "Phoebe Bridgers " with the space, without a tag, and joined to "Lucy Dacus", next to
  the tagged node "Phoebe Bridgers", which has no edge.
\<close>

theorem build_graph_untrimmed_untagged_node:
  "has_node (projr (build_graph remdups liked_table spaced_similar False)) (Str ''Phoebe Bridgers '') \<and>
   trimmed ''Phoebe Bridgers '' = False \<and>
   node_type (projr (build_graph remdups liked_table spaced_similar False))
     (Str ''Phoebe Bridgers '') = None \<and>
   has_edge (projr (build_graph remdups liked_table spaced_similar False))
     (Str ''Lucy Dacus'') (Str ''Phoebe Bridgers '') \<and>
   node_type (projr (build_graph remdups liked_table spaced_similar False))
     (Str ''Phoebe Bridgers'') = Some ''similar_liked'' \<and>
   degree (projr (build_graph remdups liked_table spaced_similar False))
     (Str ''Phoebe Bridgers'') = 0"
  by code_simp

end
